theory Spec2Isabelle
  imports Main "HOL-Library.Sublist"
begin

section \<open>Python string primitives used by the DNS lookup tool\<close>

text \<open>
  A Python \<open>str\<close> is modelled as a HOL \<open>string\<close>; a \<open>char\<close> stands for
  the code point of the same number (code points below 256), so \<open>length\<close> counts what
  Python's \<open>len\<close> counts. An absent value (\<open>None\<close>) is \<open>None\<close> of an option type.
  Console and log output of the tool is not part of the model.
\<close>

text \<open>\<open>str.isspace\<close> on one character, for the code points below 256.\<close>

definition py_isspace :: "char \<Rightarrow> bool" where
  "py_isspace c = ((of_char c :: nat) \<in> {9, 10, 11, 12, 13, 28, 29, 30, 31, 32, 133, 160})"

text \<open>\<open>str.strip()\<close>: leading and trailing whitespace removed.\<close>

definition py_strip :: "string \<Rightarrow> string" where
  "py_strip s = rev (dropWhile py_isspace (rev (dropWhile py_isspace s)))"

text \<open>
  \<open>str.replace(old, new)\<close>: every non-overlapping occurrence of \<open>old\<close>, found by a
  scan from the left, is replaced; with an empty \<open>old\<close>, \<open>new\<close> is inserted around
  every character.
\<close>

function py_replace :: "string \<Rightarrow> string \<Rightarrow> string \<Rightarrow> string" where
  "py_replace old new [] = (if old = [] then new else [])"
| "py_replace old new (c # cs) =
     (if old = [] then new @ c # py_replace old new cs
      else if prefix old (c # cs) then new @ py_replace old new (drop (length old) (c # cs))
      else c # py_replace old new cs)"
  by pat_completeness auto
termination
  by (relation "measure (\<lambda>(old, new, s). length s)") auto

text \<open>
  \<open>str.split(sep)\<close> for a separator of one character: the fields between the
  separators, at least one field.
\<close>

function py_split :: "char \<Rightarrow> string \<Rightarrow> string list" where
  "py_split sep s =
     takeWhile (\<lambda>c. c \<noteq> sep) s #
       (case dropWhile (\<lambda>c. c \<noteq> sep) s of [] \<Rightarrow> [] | _ # r \<Rightarrow> py_split sep r)"
  by pat_completeness auto
termination
proof (relation "measure (\<lambda>(sep, s). length s)")
  show "wf (measure (\<lambda>(sep, s). length s))" by simp
next
  fix sep :: char and s r :: string and x
  assume "dropWhile (\<lambda>c. c \<noteq> sep) s = x # r"
  then have "length (x # r) \<le> length s"
    using length_dropWhile_le [of "\<lambda>c. c \<noteq> sep" s] by simp
  then show "((sep, r), (sep, s)) \<in> measure (\<lambda>(sep, s). length s)" by simp
qed

declare py_split.simps [simp del]

section \<open>Domain cleaning\<close>

text \<open>
  \<open>clean_domain\<close> of \<open>dns_lookup_class.py\<close> (and, line for line, of \<open>dns_record.py\<close>):
  a falsy argument (\<open>None\<close> or the empty string) is returned as it is; otherwise strip,
  remove \<open>http://\<close>, then \<open>https://\<close>, then \<open>www.\<close>, and keep the first field of the
  split at \<open>/\<close>.
\<close>

definition clean_domain :: "string option \<Rightarrow> string option" where
  "clean_domain domain =
     (case domain of
        None \<Rightarrow> None
      | Some d \<Rightarrow>
          if d = [] then Some d
          else
            let d1 = py_strip d;
                d2 = py_replace ''https://'' [] (py_replace ''http://'' [] d1);
                d3 = py_replace ''www.'' [] d2;
                d4 = hd (py_split CHR ''/'' d3)
            in Some d4)"

section \<open>Regular expressions as the validator uses them\<close>

text \<open>
  The constructs of Python's \<open>re\<close> that occur in \<open>domain_pattern\<close>: the anchors
  \<open>^\<close> and \<open>$\<close>, an escaped literal, a character class of ranges, concatenation,
  \<open>?\<close>, \<open>{lo,hi}\<close> and \<open>*\<close>.
\<close>

datatype regex =
    Bol
  | Eol
  | Lit char
  | Cls "(char \<times> char) list"
  | Seq regex regex
  | Opt regex
  | Rep regex nat nat
  | Star regex

definition in_class :: "(char \<times> char) list \<Rightarrow> char \<Rightarrow> bool" where
  "in_class rs c =
     list_ex (\<lambda>(lo, hi). (of_char lo :: nat) \<le> of_char c \<and> (of_char c :: nat) \<le> of_char hi) rs"

text \<open>The measure by which the matcher below terminates.\<close>

fun weight :: "regex \<Rightarrow> nat" where
  "weight (Seq a b) = Suc (weight a + weight b)"
| "weight (Opt a) = Suc (weight a)"
| "weight (Rep a lo hi) = Suc hi * Suc (weight a)"
| "weight (Star a) = Suc (weight a)"
| "weight r = 0"

text \<open>
  The backtracking matcher: \<open>rests n r s\<close> lists, in the order in which the greedy
  engine tries them, the remainders of \<open>s\<close> after each way of matching \<open>r\<close> at the
  front of \<open>s\<close>; \<open>n\<close> is the length of the whole subject, so that \<open>^\<close>
  (no \<open>MULTILINE\<close> flag) holds only at its start. \<open>$\<close> holds at the end of the subject
  and just before a newline that ends the subject. An iteration of \<open>*\<close> that consumes nothing is not
  repeated.
\<close>

function rests :: "nat \<Rightarrow> regex \<Rightarrow> string \<Rightarrow> string list" where
  "rests n Bol s = (if length s = n then [s] else [])"
| "rests n Eol s = (if s = [] \<or> s = [CHR 0x0A] then [s] else [])"
| "rests n (Lit c) s = (case s of [] \<Rightarrow> [] | x # xs \<Rightarrow> if x = c then [xs] else [])"
| "rests n (Cls rs) s = (case s of [] \<Rightarrow> [] | x # xs \<Rightarrow> if in_class rs x then [xs] else [])"
| "rests n (Seq a b) s = concat (map (rests n b) (rests n a s))"
| "rests n (Opt a) s = rests n a s @ [s]"
| "rests n (Rep a lo hi) s =
     (if hi = 0 then []
      else concat (map (rests n (Rep a (lo - 1) (hi - 1))) (rests n a s)))
     @ (if lo = 0 then [s] else [])"
| "rests n (Star a) s =
     concat (map (\<lambda>t. if length t < length s then rests n (Star a) t else []) (rests n a s))
     @ [s]"
  by pat_completeness auto
termination
  by (relation "(\<lambda>(n, r, s). weight r) <*mlex*> measure (\<lambda>(n, r, s). length s)")
     (auto simp: wf_mlex mlex_less mlex_leq)

declare rests.simps [simp del]

text \<open>\<open>bool(re.match(pattern, s))\<close>: some match of the pattern starts at the front of \<open>s\<close>.\<close>

definition re_match :: "regex \<Rightarrow> string \<Rightarrow> bool" where
  "re_match pattern s = (rests (length s) pattern s \<noteq> [])"

section \<open>Domain validation\<close>

text \<open>The character classes \<open>[a-zA-Z0-9]\<close> and \<open>[a-zA-Z0-9\-]\<close>.\<close>

definition alnum_ranges :: "(char \<times> char) list" where
  "alnum_ranges = [(CHR ''a'', CHR ''z''), (CHR ''A'', CHR ''Z''), (CHR ''0'', CHR ''9'')]"

definition alnum_hyphen_ranges :: "(char \<times> char) list" where
  "alnum_hyphen_ranges = alnum_ranges @ [(CHR ''-'', CHR ''-'')]"

text \<open>\<open>[a-zA-Z0-9]([a-zA-Z0-9\-]{0,61}[a-zA-Z0-9])?\<close>, the part of the pattern that occurs twice.\<close>

definition label_pattern :: regex where
  "label_pattern =
     Seq (Cls alnum_ranges) (Opt (Seq (Rep (Cls alnum_hyphen_ranges) 0 61) (Cls alnum_ranges)))"

text \<open>
  \<open>^[a-zA-Z0-9]([a-zA-Z0-9\-]{0,61}[a-zA-Z0-9])?(\.[a-zA-Z0-9]([a-zA-Z0-9\-]{0,61}[a-zA-Z0-9])?)*$\<close>
\<close>

definition domain_pattern :: regex where
  "domain_pattern =
     Seq Bol (Seq label_pattern (Seq (Star (Seq (Lit CHR ''.'') label_pattern)) Eol))"

text \<open>
  \<open>validate_domain\<close>: \<open>not domain\<close> holds for \<open>None\<close> and for the empty string.
\<close>

definition validate_domain :: "string option \<Rightarrow> bool" where
  "validate_domain domain =
     (case domain of
        None \<Rightarrow> False
      | Some d \<Rightarrow>
          if d = [] \<or> length d > 253 then False
          else re_match domain_pattern d)"

section \<open>The resolver and the fetched records\<close>

text \<open>
  One raw record of an answer, as far as \<open>fetch_record_type\<close> reads it: its
  \<open>to_text()\<close>, and the attributes of an MX record (\<open>preference\<close>,
  \<open>exchange.to_text()\<close>) and of an SOA record when the object has them.
\<close>

record soa_fields =
  mname :: string
  rname :: string
  serial :: int
  refresh :: int
  retry :: int
  expire :: int
  minimum :: int

record rdata =
  to_text :: string
  mx_attrs :: "(int \<times> string) option"
  soa_attrs :: "soa_fields option"

text \<open>An element of \<open>record_list\<close>: a string, or the dictionary built for MX or SOA.\<close>

datatype decoded =
    Simple string
  | MailExchange int string
  | Authority soa_fields

text \<open>
  What one call of \<open>dns_resolver.resolve(website, record_type)\<close> does: it raises
  \<open>NXDOMAIN\<close>, raises \<open>NoAnswer\<close>, raises any other exception, or returns the records.
  The resolver is a parameter: a function of its own state \<open>'w\<close> (network, caches, clock)
  that returns the outcome and the next state.
\<close>

datatype outcome = NXDOMAIN | NoAnswer | OtherError | Answer "rdata list"

type_synonym 'w resolver = "'w \<Rightarrow> string \<Rightarrow> string \<Rightarrow> outcome \<times> 'w"

text \<open>
  The state a lookup runs in: the resolver's state, and the list of the
  \<open>resolve\<close> calls issued so far (name and record type), oldest first.
\<close>

type_synonym 'w run_state = "'w \<times> (string \<times> string) list"

text \<open>
  The three decoding loops of \<open>fetch_record_type\<close>; \<open>None\<close> is the
  \<open>AttributeError\<close> of a record without the attribute read.
\<close>

definition decode :: "string \<Rightarrow> rdata list \<Rightarrow> decoded list option" where
  "decode record_type records =
     (if record_type = ''MX'' then
        those (map (\<lambda>server. map_option (\<lambda>(p, e). MailExchange p e) (mx_attrs server)) records)
      else if record_type = ''SOA'' then
        those (map (\<lambda>soa. map_option Authority (soa_attrs soa)) records)
      else Some (map (\<lambda>r. Simple (to_text r)) records))"

text \<open>
  The value \<open>fetch_record_type\<close> returns for an outcome of the resolver: \<open>None\<close>
  after \<open>NXDOMAIN\<close>, the empty list after \<open>NoAnswer\<close> and after any other
  exception (one raised while decoding included), the decoded list otherwise.
\<close>

definition fetch_result :: "string \<Rightarrow> outcome \<Rightarrow> decoded list option" where
  "fetch_result record_type out =
     (case out of
        Answer records \<Rightarrow>
          (case decode record_type records of
             Some record_list \<Rightarrow> Some record_list
           | None \<Rightarrow> Some [])
      | NXDOMAIN \<Rightarrow> None
      | NoAnswer \<Rightarrow> Some []
      | OtherError \<Rightarrow> Some [])"

definition fetch_record_type ::
  "'w resolver \<Rightarrow> string \<Rightarrow> string \<Rightarrow> 'w run_state \<Rightarrow> decoded list option \<times> 'w run_state" where
  "fetch_record_type resolve website record_type st =
     (case st of (w, calls) \<Rightarrow>
        (case resolve w website record_type of (out, w') \<Rightarrow>
           (fetch_result record_type out, (w', calls @ [(website, record_type)]))))"

section \<open>Aggregation\<close>

text \<open>
  A Python \<open>dict\<close> keeps its keys in insertion order; assigning to a key that is
  present replaces the value where the key stands.
\<close>

type_synonym dns_dict = "(string \<times> decoded list) list"

fun dict_set :: "('k \<times> 'v) list \<Rightarrow> 'k \<Rightarrow> 'v \<Rightarrow> ('k \<times> 'v) list" where
  "dict_set [] k v = [(k, v)]"
| "dict_set ((k', v') # d) k v =
     (if k' = k then (k, v) # d else (k', v') # dict_set d k v)"

text \<open>The key \<open>f'{record_type}_Records'\<close>.\<close>

definition records_key :: "string \<Rightarrow> string" where
  "records_key record_type = record_type @ ''_Records''"

text \<open>
  The \<open>for\<close> loop of \<open>get_dns_records\<close> over the record types still to do, on the
  locals \<open>dns_record\<close> and \<open>domain_exists\<close>; \<open>None\<close> is the
  \<open>return None\<close> inside the loop.
\<close>

fun records_loop ::
  "'w resolver \<Rightarrow> string \<Rightarrow> string list \<Rightarrow> dns_dict \<times> bool \<Rightarrow> 'w run_state
     \<Rightarrow> (dns_dict \<times> bool) option \<times> 'w run_state" where
  "records_loop resolve website [] locals st = (Some locals, st)"
| "records_loop resolve website (record_type # todo) (dns_record, domain_exists) st =
     (case fetch_record_type resolve website record_type st of
        (None, st') \<Rightarrow> (None, st')
      | (Some result, st') \<Rightarrow>
          if result \<noteq> [] then
            records_loop resolve website todo
              (dict_set dns_record (records_key record_type) result, True) st'
          else
            records_loop resolve website todo
              (dict_set dns_record (records_key record_type) [], domain_exists) st')"

text \<open>\<open>self.config['dns_settings']['record_types']\<close>, the one setting the lookup reads.\<close>

record config =
  record_types :: "string list"

text \<open>
  The record types the loop runs over: the argument, or the configured ones when the
  argument is \<open>None\<close> or empty (\<open>not record_types\<close>).
\<close>

definition requested_types :: "config \<Rightarrow> string list option \<Rightarrow> string list" where
  "requested_types cfg types_arg =
     (case types_arg of
        None \<Rightarrow> record_types cfg
      | Some ts \<Rightarrow> if ts = [] then record_types cfg else ts)"

text \<open>
  \<open>get_dns_records\<close> of \<open>dns_lookup_class.py\<close>, with the locals at its end:
  the dictionary it returns and \<open>domain_exists\<close>, which decides whether the notice
  \<open>exists but has no standard DNS records\<close> is printed.
\<close>

definition get_dns_records_locals ::
  "config \<Rightarrow> 'w resolver \<Rightarrow> string option \<Rightarrow> string list option \<Rightarrow> 'w run_state
     \<Rightarrow> (dns_dict \<times> bool) option \<times> 'w run_state" where
  "get_dns_records_locals cfg resolve website types_arg st =
     (case clean_domain website of
        None \<Rightarrow> (None, st)
      | Some cleaned \<Rightarrow>
          if \<not> validate_domain (Some cleaned) then (None, st)
          else records_loop resolve cleaned (requested_types cfg types_arg) ([], False) st)"

text \<open>The value \<open>get_dns_records\<close> returns, and the state it leaves.\<close>

definition get_dns_records ::
  "config \<Rightarrow> 'w resolver \<Rightarrow> string option \<Rightarrow> string list option \<Rightarrow> 'w run_state
     \<Rightarrow> dns_dict option \<times> 'w run_state" where
  "get_dns_records cfg resolve website types_arg st =
     (case get_dns_records_locals cfg resolve website types_arg st of
        (r, st') \<Rightarrow> (map_option fst r, st'))"

section \<open>Reference notions for the statements\<close>

text \<open>
  What the resolver answers when asked for the record types \<open>ts\<close> one after the
  other, none left out: the outcomes in order, and its state afterwards.
\<close>

fun query_all :: "'w resolver \<Rightarrow> string \<Rightarrow> string list \<Rightarrow> 'w \<Rightarrow> outcome list \<times> 'w" where
  "query_all resolve website [] w = ([], w)"
| "query_all resolve website (t # ts) w =
     (case resolve w website t of (out, w') \<Rightarrow>
        (case query_all resolve website ts w' of (outs, w'') \<Rightarrow> (out # outs, w'')))"

text \<open>
  The list the loop stores under the key of a record type for an outcome other than
  \<open>NXDOMAIN\<close>, and the dictionary after storing a run of outcomes.
\<close>

definition stored :: "string \<Rightarrow> outcome \<Rightarrow> decoded list" where
  "stored record_type out =
     (case fetch_result record_type out of Some result \<Rightarrow> result | None \<Rightarrow> [])"

definition store_all :: "dns_dict \<Rightarrow> (string \<times> outcome) list \<Rightarrow> dns_dict" where
  "store_all d tos = foldl (\<lambda>d (t, out). dict_set d (records_key t) (stored t out)) d tos"

text \<open>
  The grammar of a domain name as the specification words it, to compare
  \<open>validate_domain\<close> with: an alphanumeric character is an ASCII letter or digit; a
  label has 1 to 63 characters, all alphanumeric or hyphens, the first and the last
  alphanumeric; a domain is one or more labels separated by dots, not empty and at most
  253 characters long; an absent value is not a domain.
\<close>

definition is_alnum :: "char \<Rightarrow> bool" where
  "is_alnum c =
     ((97 \<le> (of_char c :: nat) \<and> (of_char c :: nat) \<le> 122) \<or>
      (65 \<le> (of_char c :: nat) \<and> (of_char c :: nat) \<le> 90) \<or>
      (48 \<le> (of_char c :: nat) \<and> (of_char c :: nat) \<le> 57))"

definition spec_label :: "string \<Rightarrow> bool" where
  "spec_label l =
     (1 \<le> length l \<and> length l \<le> 63 \<and>
      list_all (\<lambda>c. is_alnum c \<or> c = CHR ''-'') l \<and>
      is_alnum (hd l) \<and> is_alnum (last l))"

definition spec_grammar :: "string \<Rightarrow> bool" where
  "spec_grammar s = list_all spec_label (py_split CHR ''.'' s)"

definition spec_validate :: "string option \<Rightarrow> bool" where
  "spec_validate domain =
     (case domain of
        None \<Rightarrow> False
      | Some s \<Rightarrow> s \<noteq> [] \<and> length s \<le> 253 \<and> spec_grammar s)"

text \<open>The word \<open>.l1.l2 \<dots> .lk\<close> of the labels \<open>l1\<close> to \<open>lk\<close>.\<close>

definition dotted :: "string list \<Rightarrow> string" where
  "dotted ls = concat (map ((#) CHR ''.'') ls)"

text \<open>
  The number of places of \<open>t\<close> at which \<open>old\<close> occurs, and the string
  \<open>clean_domain\<close> holds before the step that removes \<open>www.\<close>: stripped of
  surrounding whitespace and of the two scheme prefixes.
\<close>

fun count_occ :: "string \<Rightarrow> string \<Rightarrow> nat" where
  "count_occ old [] = (if old = [] then 1 else 0)"
| "count_occ old (c # cs) = (if prefix old (c # cs) then 1 else 0) + count_occ old cs"

definition scheme_stripped :: "string \<Rightarrow> string" where
  "scheme_stripped d = py_replace ''https://'' [] (py_replace ''http://'' [] (py_strip d))"

text \<open>
  The removal of \<open>www.\<close> as the specification words it: the first occurrence is
  removed, and only that one.
\<close>

fun remove_first :: "string \<Rightarrow> string \<Rightarrow> string" where
  "remove_first old [] = []"
| "remove_first old (c # cs) =
     (if prefix old (c # cs) then drop (length old) (c # cs) else c # remove_first old cs)"

text \<open>The elements of a list in the order in which they first occur.\<close>

fun first_occurrences :: "'a list \<Rightarrow> 'a list" where
  "first_occurrences [] = []"
| "first_occurrences (x # xs) = x # removeAll x (first_occurrences xs)"

text \<open>
  A resolver for the examples: the outcome depends on the record type only, and the
  state counts the calls.
\<close>

definition answers_by_type :: "(string \<Rightarrow> outcome) \<Rightarrow> nat resolver" where
  "answers_by_type f w name t = (f t, Suc w)"

text \<open>The resolver with one and the same outcome for every call; its state counts the calls.\<close>

definition same_answer :: "outcome \<Rightarrow> nat resolver" where
  "same_answer out w name t = (out, Suc w)"

section \<open>Strings: basic facts\<close>

lemma py_split_not_Nil: "py_split sep s \<noteq> []"
  by (subst py_split.simps) simp

lemma hd_py_split: "hd (py_split sep s) = takeWhile (\<lambda>c. c \<noteq> sep) s"
  by (subst py_split.simps) simp

section \<open>Replacing every occurrence\<close>

lemma count_occ_0_iff: "old \<noteq> [] \<Longrightarrow> count_occ old t = 0 \<longleftrightarrow> \<not> sublist old t"
  by (induction t) (auto simp: sublist_Cons_right)

lemma py_replace_none:
  "old \<noteq> [] \<Longrightarrow> count_occ old t = 0 \<Longrightarrow> py_replace old new t = t"
  by (induction t) (auto split: if_splits)

lemma prefix_append_long:
  assumes "prefix p (a @ b)" and "length p \<le> length a"
  shows "prefix p a"
  using assms by (auto simp: prefix_append)

lemma py_replace_at_prefix:
  "old \<noteq> [] \<Longrightarrow> py_replace old new (old @ y) = new @ py_replace old new y"
  by (cases old) simp_all

lemma py_replace_first:
  assumes "old \<noteq> []" and "count_occ old (x @ butlast old) = 0"
  shows "py_replace old new (x @ old @ y) = x @ new @ py_replace old new y"
  using assms(2)
proof (induction x)
  case Nil
  from assms(1) obtain c cs where old: "old = c # cs" by (cases old) auto
  have "py_replace old new (old @ y) = new @ py_replace old new y"
    unfolding old by simp
  then show ?case by simp
next
  case (Cons c x)
  let ?a = "(c # x) @ butlast old"
  have split: "(c # x) @ old @ y = ?a @ (last old # y)"
    using assms(1) by (simp add: snoc_eq_iff_butlast)
  have np: "\<not> prefix old ((c # x) @ old @ y)"
  proof
    assume "prefix old ((c # x) @ old @ y)"
    then have "prefix old (?a @ (last old # y))" unfolding split .
    moreover have "length old \<le> length ?a" by simp
    ultimately have "prefix old ?a" by (rule prefix_append_long)
    with Cons.prems show False by simp
  qed
  from Cons.prems have "count_occ old (x @ butlast old) = 0" by simp
  from Cons.IH [OF this] np assms(1) show ?case by simp
qed


lemma sublist_trans': "sublist a b \<Longrightarrow> sublist b c \<Longrightarrow> sublist a c"
  by (metis sublist_order.order_trans)

lemma py_replace_single:
  assumes "old \<noteq> []"
  shows "count_occ old t = 1 \<Longrightarrow>
         \<exists>x y. t = x @ old @ y \<and> py_replace old [] t = x @ y \<and>
                \<not> sublist old x \<and> \<not> sublist old y"
proof (induction t)
  case Nil
  with assms show ?case by simp
next
  case (Cons c cs)
  show ?case
  proof (cases "prefix old (c # cs)")
    case True
    then obtain y where y: "c # cs = old @ y" by (auto simp: prefix_def)
    from True Cons.prems have "count_occ old cs = 0" by simp
    with assms have ncs: "\<not> sublist old cs" by (simp add: count_occ_0_iff)
    have "suffix y cs"
      using y assms by (cases old) (auto simp: suffix_def)
    then have "sublist y cs" by (rule suffix_imp_sublist)
    with ncs have ny: "\<not> sublist old y" by (auto dest: sublist_trans')
    with assms have "py_replace old [] y = y" by (simp add: py_replace_none count_occ_0_iff)
    then have "py_replace old [] (c # cs) = [] @ y"
      using py_replace_at_prefix [of old "[]" y] assms y by simp
    moreover from assms have "\<not> sublist old []" by simp
    ultimately show ?thesis using y ny by (intro exI [of _ "[]"] exI [of _ y]) simp
  next
    case False
    with Cons.prems have "count_occ old cs = 1" by simp
    from Cons.IH [OF this] obtain x y where cs: "cs = x @ old @ y"
      and r: "py_replace old [] cs = x @ y" and nx: "\<not> sublist old x" and ny: "\<not> sublist old y"
      by blast
    have "\<not> prefix old (c # x)"
    proof
      assume "prefix old (c # x)"
      then have "prefix old ((c # x) @ old @ y)" by (rule prefix_prefix)
      with False cs show False by simp
    qed
    with nx have nx': "\<not> sublist old (c # x)" by (simp add: sublist_Cons_right)
    from False r assms have "py_replace old [] (c # cs) = (c # x) @ y" by simp
    with cs nx' ny show ?thesis by (intro exI [of _ "c # x"] exI [of _ y]) simp
  qed
qed

lemma proper_prefix_www:
  assumes "''www.'' = xs1 @ xs2" and "xs1 \<noteq> []" and "xs2 \<noteq> []"
  shows "\<exists>u. xs1 = u @ ''w''"
  using assms by (auto simp: Cons_eq_append_conv)

lemma no_www_across_junction:
  assumes "\<not> sublist ''www.'' x" and "\<not> sublist ''www.'' y"
    and "\<not> sublist ''wwww.'' (x @ ''www.'' @ y)"
  shows "\<not> sublist ''www.'' (x @ y)"
proof
  assume "sublist ''www.'' (x @ y)"
  with assms(1,2) obtain xs1 xs2 where w: "''www.'' = xs1 @ xs2"
    and s1: "suffix xs1 x" and p2: "prefix xs2 y"
    unfolding sublist_append by blast
  have "xs1 \<noteq> []"
  proof
    assume "xs1 = []"
    with w p2 have "prefix ''www.'' y" by simp
    with assms(2) show False by auto
  qed
  moreover have "xs2 \<noteq> []"
  proof
    assume "xs2 = []"
    with w s1 have "suffix ''www.'' x" by simp
    with assms(1) show False by auto
  qed
  ultimately obtain u where "xs1 = u @ ''w''" using proper_prefix_www [OF w] by blast
  with s1 obtain x' where "x = x' @ ''w''" by (auto simp: suffix_def)
  then have "x @ ''www.'' @ y = x' @ ''wwww.'' @ y" by simp
  then have "sublist ''wwww.'' (x @ ''www.'' @ y)" by (simp only: sublist_appendI)
  with assms(3) show False ..
qed

lemma clean_domain_eq:
  "clean_domain (Some d) =
     Some (takeWhile (\<lambda>c. c \<noteq> CHR ''/'') (py_replace ''www.'' [] (scheme_stripped d)))"
  by (simp add: clean_domain_def hd_py_split scheme_stripped_def py_strip_def)

lemma www_free_after_replace:
  assumes "count_occ ''www.'' t \<le> 1" and "count_occ ''wwww.'' t = 0"
  shows "\<not> sublist ''www.'' (py_replace ''www.'' [] t)"
proof -
  from assms(1) consider "count_occ ''www.'' t = 0" | "count_occ ''www.'' t = 1" by arith
  then show ?thesis
  proof cases
    case 1
    then show ?thesis by (simp add: py_replace_none count_occ_0_iff [symmetric])
  next
    case 2
    then obtain x y where t: "t = x @ ''www.'' @ y" and r: "py_replace ''www.'' [] t = x @ y"
      and nx: "\<not> sublist ''www.'' x" and ny: "\<not> sublist ''www.'' y"
      using py_replace_single [of "''www.''" t] by auto
    from assms(2) have "\<not> sublist ''wwww.'' (x @ ''www.'' @ y)"
      unfolding t by (simp add: count_occ_0_iff)
    from no_www_across_junction [OF nx ny this] r show ?thesis by simp
  qed
qed

section \<open>What the pattern matches\<close>

lemma in_class_alnum: "in_class alnum_ranges c \<longleftrightarrow> is_alnum c"
  by (simp add: in_class_def alnum_ranges_def is_alnum_def)

lemma of_char_hyphen: "(of_char c :: nat) = 45 \<longleftrightarrow> c = CHR ''-''"
proof -
  have "(of_char CHR ''-'' :: nat) = 45" by simp
  then have "(of_char c :: nat) = 45 \<longleftrightarrow> (of_char c :: nat) = of_char CHR ''-''"
    by (simp only:)
  then show ?thesis by (simp only: of_char_eq_iff)
qed

lemma in_class_alnum_hyphen: "in_class alnum_hyphen_ranges c \<longleftrightarrow> is_alnum c \<or> c = CHR ''-''"
  using of_char_hyphen [of c]
  by (auto simp: in_class_def alnum_ranges_def alnum_hyphen_ranges_def is_alnum_def)

lemma list_all_alnum_hyphen:
  "list_all (in_class alnum_hyphen_ranges) p = list_all (\<lambda>x. is_alnum x \<or> x = CHR ''-'') p"
  by (simp add: list_all_iff in_class_alnum_hyphen)

lemma rests_Cls: "set (rests n (Cls rs) s) = {t. \<exists>c. s = c # t \<and> in_class rs c}"
  by (cases s) (auto simp: rests.simps)

lemma rests_Lit: "set (rests n (Lit c) s) = {t. s = c # t}"
  by (cases s) (auto simp: rests.simps)

lemma rests_Seq: "set (rests n (Seq a b) s) = (\<Union>t \<in> set (rests n a s). set (rests n b t))"
  by (simp add: rests.simps)

lemma rests_Opt: "set (rests n (Opt a) s) = insert s (set (rests n a s))"
  by (simp add: rests.simps)

lemma rests_Rep_Cls:
  "set (rests n (Rep (Cls rs) 0 k) s) =
     {t. \<exists>p. s = p @ t \<and> length p \<le> k \<and> list_all (in_class rs) p}"
proof (induction k arbitrary: s)
  case 0
  show ?case by (simp add: rests.simps(7))
next
  case (Suc k)
  have "set (rests n (Rep (Cls rs) 0 (Suc k)) s) =
          insert s (\<Union>t \<in> set (rests n (Cls rs) s). set (rests n (Rep (Cls rs) 0 k) t))"
    by (simp add: rests.simps(7) [of n "Cls rs" 0 "Suc k"])
  also have "\<dots> = {t. \<exists>p. s = p @ t \<and> length p \<le> Suc k \<and> list_all (in_class rs) p}"
    (is "?L = ?R")
  proof (intro set_eqI iffI)
    fix t assume "t \<in> ?L"
    then consider "t = s" | c s1 p where "s = c # s1" "in_class rs c" "s1 = p @ t"
      "length p \<le> k" "list_all (in_class rs) p"
      unfolding Suc.IH rests_Cls by auto
    then show "t \<in> ?R"
    proof cases
      case 1
      then show ?thesis by (auto intro: exI [of _ "[]"])
    next
      case 2
      then show ?thesis by (auto intro!: exI [of _ "c # p"])
    qed
  next
    fix t assume "t \<in> ?R"
    then obtain p where p: "s = p @ t" "length p \<le> Suc k" "list_all (in_class rs) p" by auto
    show "t \<in> ?L"
    proof (cases p)
      case Nil
      with p show ?thesis by simp
    next
      case (Cons c q)
      with p show ?thesis unfolding Suc.IH rests_Cls by auto
    qed
  qed
  finally show ?case .
qed


lemma spec_label_iff:
  "spec_label p \<longleftrightarrow>
     (\<exists>c. p = [c] \<and> is_alnum c) \<or>
     (\<exists>c mid d. p = c # mid @ [d] \<and> is_alnum c \<and> is_alnum d \<and> length mid \<le> 61 \<and>
        list_all (\<lambda>x. is_alnum x \<or> x = CHR ''-'') mid)"
  (is "?L \<longleftrightarrow> ?A \<or> ?B")
proof
  assume l: ?L
  then obtain c q where p: "p = c # q" by (cases p) (auto simp: spec_label_def)
  show "?A \<or> ?B"
  proof (cases "q = []")
    case True
    with l p show ?thesis by (simp add: spec_label_def)
  next
    case False
    then have q: "q = butlast q @ [last q]" by simp
    from l p False have "is_alnum c" "is_alnum (last q)" "length (butlast q) \<le> 61"
      "list_all (\<lambda>x. is_alnum x \<or> x = CHR ''-'') (butlast q)"
      by (auto simp: spec_label_def list_all_iff dest: in_set_butlastD)
    with p q have ?B by metis
    then show ?thesis ..
  qed
next
  assume "?A \<or> ?B"
  then show ?L
    by (auto simp: spec_label_def list_all_iff)
qed

lemma rests_label:
  "set (rests n label_pattern s) = {t. \<exists>p. s = p @ t \<and> spec_label p}"
  (is "?L = ?R")
proof (intro set_eqI iffI)
  fix t assume "t \<in> ?L"
  then consider c where "s = c # t" "is_alnum c"
    | c mid d where "s = c # mid @ d # t" "is_alnum c" "is_alnum d" "length mid \<le> 61"
        "list_all (\<lambda>x. is_alnum x \<or> x = CHR ''-'') mid"
    unfolding label_pattern_def rests_Seq rests_Opt rests_Rep_Cls rests_Cls
    by (auto simp: in_class_alnum list_all_alnum_hyphen)
  then show "t \<in> ?R"
  proof cases
    case 1
    then have "s = [c] @ t \<and> spec_label [c]" by (simp add: spec_label_iff)
    then show ?thesis by blast
  next
    case 2
    then have "s = (c # mid @ [d]) @ t \<and> spec_label (c # mid @ [d])"
      unfolding spec_label_iff by auto
    then show ?thesis by blast
  qed
next
  fix t assume "t \<in> ?R"
  then obtain p where p: "s = p @ t" "spec_label p" by auto
  from p(2) consider c where "p = [c]" "is_alnum c"
    | c mid d where "p = c # mid @ [d]" "is_alnum c" "is_alnum d" "length mid \<le> 61"
        "list_all (\<lambda>x. is_alnum x \<or> x = CHR ''-'') mid"
    unfolding spec_label_iff by blast
  then show "t \<in> ?L"
  proof cases
    case 1
    with p(1) show ?thesis
      unfolding label_pattern_def rests_Seq rests_Opt rests_Rep_Cls rests_Cls
      by (auto simp: in_class_alnum)
  next
    case 2
    with p(1) have "s = c # mid @ d # t" by simp
    with 2 show ?thesis
      unfolding label_pattern_def rests_Seq rests_Opt rests_Rep_Cls rests_Cls
      by (auto simp: in_class_alnum list_all_alnum_hyphen)
  qed
qed

lemma rests_dot_label:
  "set (rests n (Seq (Lit CHR ''.'') label_pattern) s) =
     {t. \<exists>l. s = CHR ''.'' # l @ t \<and> spec_label l}"
  unfolding rests_Seq rests_Lit rests_label by auto

lemma rests_star_dot_label:
  "set (rests n (Star (Seq (Lit CHR ''.'') label_pattern)) s) =
     {t. \<exists>ls. s = dotted ls @ t \<and> list_all spec_label ls}"
proof (induction s rule: length_induct)
  case (1 s)
  let ?a = "Seq (Lit CHR ''.'') label_pattern"
  have unfold: "set (rests n (Star ?a) s) =
      insert s (\<Union>t \<in> set (rests n ?a s). set (rests n (Star ?a) t))"
  proof -
    have "length t < length s" if "t \<in> set (rests n ?a s)" for t
      using that unfolding rests_dot_label by auto
    then have "map (\<lambda>t. if length t < length s then rests n (Star ?a) t else []) (rests n ?a s)
               = map (rests n (Star ?a)) (rests n ?a s)"
      by (intro map_cong) auto
    then show ?thesis by (simp add: rests.simps(8) [of n ?a s])
  qed
  show ?case (is "?L = ?R")
  proof (intro set_eqI iffI)
    fix t assume "t \<in> ?L"
    then consider "t = s" | l s1 where "s = CHR ''.'' # l @ s1" "spec_label l"
      "t \<in> set (rests n (Star ?a) s1)"
      unfolding unfold rests_dot_label by auto
    then show "t \<in> ?R"
    proof cases
      case 1
      then have "s = dotted [] @ t \<and> list_all spec_label []" by (simp add: dotted_def)
      then show ?thesis by blast
    next
      case 2
      then have "length s1 < length s" by simp
      with 1 2(3) obtain ls where "s1 = dotted ls @ t" "list_all spec_label ls" by auto
      with 2 have "s = dotted (l # ls) @ t \<and> list_all spec_label (l # ls)"
        by (simp add: dotted_def)
      then show ?thesis by blast
    qed
  next
    fix t assume "t \<in> ?R"
    then obtain ls where ls: "s = dotted ls @ t" "list_all spec_label ls" by auto
    show "t \<in> ?L"
    proof (cases ls)
      case Nil
      with ls show ?thesis unfolding unfold by (simp add: dotted_def)
    next
      case (Cons l ls')
      let ?s1 = "dotted ls' @ t"
      from ls Cons have s: "s = CHR ''.'' # l @ ?s1" and l: "spec_label l"
        and ls': "list_all spec_label ls'"
        by (simp_all add: dotted_def)
      from s have "length ?s1 < length s" by simp
      with 1 ls' have "t \<in> set (rests n (Star ?a) ?s1)" by auto
      moreover from s l have "?s1 \<in> set (rests n ?a s)"
        unfolding rests_dot_label by auto
      ultimately show ?thesis unfolding unfold by blast
    qed
  qed
qed

lemma rests_Eol: "t \<in> set (rests n Eol t2) \<longleftrightarrow> t = t2 \<and> (t2 = [] \<or> t2 = [CHR 0x0A])"
  by (simp add: rests.simps(2))

lemma rests_Bol: "set (rests (length s) Bol s) = {s}"
  by (simp add: rests.simps(1))

lemma rests_domain_pattern:
  "t \<in> set (rests (length s) domain_pattern s) \<longleftrightarrow>
     (t = [] \<or> t = [CHR 0x0A]) \<and>
     (\<exists>l ls. s = l @ dotted ls @ t \<and> spec_label l \<and> list_all spec_label ls)"
  (is "?L \<longleftrightarrow> ?R")
proof -
  let ?n = "length s"
  let ?star = "Star (Seq (Lit CHR ''.'') label_pattern)"
  have "?L \<longleftrightarrow>
      (\<exists>t1 \<in> set (rests ?n label_pattern s). \<exists>t2 \<in> set (rests ?n ?star t1).
         t \<in> set (rests ?n Eol t2))"
    by (simp add: domain_pattern_def rests_Seq rests_Bol)
  also have "\<dots> \<longleftrightarrow>
      (\<exists>t1 \<in> set (rests ?n label_pattern s).
         t \<in> set (rests ?n ?star t1) \<and> (t = [] \<or> t = [CHR 0x0A]))"
    unfolding rests_Eol by blast
  also have "\<dots> \<longleftrightarrow> ?R"
  proof
    assume "\<exists>t1 \<in> set (rests ?n label_pattern s).
         t \<in> set (rests ?n ?star t1) \<and> (t = [] \<or> t = [CHR 0x0A])"
    then obtain t1 where t1: "t1 \<in> set (rests ?n label_pattern s)"
      and t: "t \<in> set (rests ?n ?star t1)" and e: "t = [] \<or> t = [CHR 0x0A]"
      by blast
    from t1 obtain l where l: "s = l @ t1" "spec_label l"
      unfolding rests_label by blast
    from t obtain ls where ls: "t1 = dotted ls @ t" "list_all spec_label ls"
      unfolding rests_star_dot_label by blast
    from l ls have "s = l @ dotted ls @ t \<and> spec_label l \<and> list_all spec_label ls" by simp
    with e show ?R by blast
  next
    assume r: ?R
    then obtain l ls where s: "s = l @ dotted ls @ t" and l: "spec_label l"
      and ls: "list_all spec_label ls"
      by blast
    from s l have "dotted ls @ t \<in> set (rests ?n label_pattern s)"
      unfolding rests_label by blast
    moreover from ls have "t \<in> set (rests ?n ?star (dotted ls @ t))"
      unfolding rests_star_dot_label by blast
    ultimately show "\<exists>t1 \<in> set (rests ?n label_pattern s).
         t \<in> set (rests ?n ?star t1) \<and> (t = [] \<or> t = [CHR 0x0A])"
      using r by blast
  qed
  finally show ?thesis .
qed

lemma re_match_domain_pattern:
  "re_match domain_pattern s \<longleftrightarrow>
     (\<exists>l ls t. s = l @ dotted ls @ t \<and> spec_label l \<and> list_all spec_label ls \<and>
        (t = [] \<or> t = [CHR 0x0A]))"
proof -
  have "re_match domain_pattern s \<longleftrightarrow> (\<exists>t. t \<in> set (rests (length s) domain_pattern s))"
    unfolding re_match_def by (cases "rests (length s) domain_pattern s") auto
  then show ?thesis unfolding rests_domain_pattern by blast
qed

section \<open>The pattern and the grammar of the specification\<close>

lemma py_split_no_sep:
  assumes "sep \<notin> set s"
  shows "py_split sep s = [s]"
proof -
  from assms have tw: "takeWhile (\<lambda>c. c \<noteq> sep) s = s"
    and dw: "dropWhile (\<lambda>c. c \<noteq> sep) s = []"
    by (induction s) auto
  show ?thesis by (subst py_split.simps) (simp only: tw dw list.case)
qed

lemma py_split_at_sep:
  assumes "sep \<notin> set l"
  shows "py_split sep (l @ sep # r) = l # py_split sep r"
proof -
  from assms have tw: "takeWhile (\<lambda>c. c \<noteq> sep) (l @ sep # r) = l"
    and dw: "dropWhile (\<lambda>c. c \<noteq> sep) (l @ sep # r) = sep # r"
    by (induction l) auto
  show ?thesis by (subst py_split.simps) (simp only: tw dw list.case)
qed

lemma spec_label_no_dot: "spec_label l \<Longrightarrow> CHR ''.'' \<notin> set l"
  by (auto simp: spec_label_def list_all_iff is_alnum_def)

lemma py_split_dotted:
  "CHR ''.'' \<notin> set l \<Longrightarrow> list_all spec_label ls \<Longrightarrow>
   py_split CHR ''.'' (l @ dotted ls) = l # ls"
proof (induction ls arbitrary: l)
  case Nil
  then show ?case by (simp add: dotted_def py_split_no_sep)
next
  case (Cons a ls)
  then have "py_split CHR ''.'' (a @ dotted ls) = a # ls"
    by (simp add: spec_label_no_dot)
  with Cons.prems(1) show ?case
    using py_split_at_sep [of "CHR ''.''" l "a @ dotted ls"] by (simp add: dotted_def)
qed

lemma join_py_split:
  "s = hd (py_split sep s) @ concat (map ((#) sep) (tl (py_split sep s)))"
proof (induction sep s rule: py_split.induct)
  case (1 sep s)
  show ?case
  proof (cases "dropWhile (\<lambda>c. c \<noteq> sep) s")
    case Nil
    then have tw: "takeWhile (\<lambda>c. c \<noteq> sep) s = s"
      by (metis append_Nil2 takeWhile_dropWhile_id)
    have "py_split sep s = [s]" by (subst py_split.simps) (simp only: tw Nil list.case)
    then show ?thesis by simp
  next
    case (Cons x r)
    then have x: "x = sep" using hd_dropWhile [of "\<lambda>c. c \<noteq> sep" s] by auto
    from "1.IH" [OF Cons] have r: "r = hd (py_split sep r) @ concat (map ((#) sep) (tl (py_split sep r)))" .
    have ne: "py_split sep r \<noteq> []" by (rule py_split_not_Nil)
    have "s = takeWhile (\<lambda>c. c \<noteq> sep) s @ sep # r"
      using takeWhile_dropWhile_id [of "\<lambda>c. c \<noteq> sep" s] Cons x by simp
    also have "sep # r = concat (map ((#) sep) (py_split sep r))"
      using r ne by (cases "py_split sep r") auto
    finally have s: "s = takeWhile (\<lambda>c. c \<noteq> sep) s @ concat (map ((#) sep) (py_split sep r))" .
    have "py_split sep s = takeWhile (\<lambda>c. c \<noteq> sep) s # py_split sep r"
      by (subst py_split.simps) (simp only: Cons list.case)
    with s show ?thesis by simp
  qed
qed

lemma spec_grammar_iff:
  "spec_grammar s \<longleftrightarrow> (\<exists>l ls. s = l @ dotted ls \<and> spec_label l \<and> list_all spec_label ls)"
proof
  assume g: "spec_grammar s"
  obtain f fs where f: "py_split CHR ''.'' s = f # fs"
    using py_split_not_Nil [of "CHR ''.''" s] by (cases "py_split CHR ''.'' s") auto
  from join_py_split [of s "CHR ''.''"] f have "s = f @ dotted fs" by (simp add: dotted_def)
  with g f show "\<exists>l ls. s = l @ dotted ls \<and> spec_label l \<and> list_all spec_label ls"
    by (auto simp: spec_grammar_def)
next
  assume "\<exists>l ls. s = l @ dotted ls \<and> spec_label l \<and> list_all spec_label ls"
  then obtain l ls where "s = l @ dotted ls" "spec_label l" "list_all spec_label ls" by blast
  then show "spec_grammar s"
    by (simp add: spec_grammar_def py_split_dotted spec_label_no_dot)
qed

lemma spec_grammar_not_Nil: "spec_grammar s \<Longrightarrow> s \<noteq> []"
  by (auto simp: spec_grammar_iff spec_label_def)

lemma validate_domain_iff:
  "validate_domain (Some s) \<longleftrightarrow>
     length s \<le> 253 \<and> (spec_grammar s \<or> (\<exists>t. s = t @ [CHR 0x0A] \<and> spec_grammar t))"
proof -
  have m: "re_match domain_pattern s \<longleftrightarrow>
      spec_grammar s \<or> (\<exists>t. s = t @ [CHR 0x0A] \<and> spec_grammar t)"
  proof
    assume "re_match domain_pattern s"
    then obtain l ls t where s: "s = l @ dotted ls @ t" and ok: "spec_label l" "list_all spec_label ls"
      and t: "t = [] \<or> t = [CHR 0x0A]"
      unfolding re_match_domain_pattern by blast
    from ok have g: "spec_grammar (l @ dotted ls)" unfolding spec_grammar_iff by blast
    from t show "spec_grammar s \<or> (\<exists>t. s = t @ [CHR 0x0A] \<and> spec_grammar t)"
    proof
      assume "t = []"
      with s g show ?thesis by simp
    next
      assume "t = [CHR 0x0A]"
      with s have "s = (l @ dotted ls) @ [CHR 0x0A]" by simp
      with g show ?thesis by blast
    qed
  next
    assume "spec_grammar s \<or> (\<exists>t. s = t @ [CHR 0x0A] \<and> spec_grammar t)"
    then show "re_match domain_pattern s"
    proof
      assume "spec_grammar s"
      then obtain l ls where "s = l @ dotted ls @ []" "spec_label l" "list_all spec_label ls"
        unfolding spec_grammar_iff by auto
      then show ?thesis unfolding re_match_domain_pattern by blast
    next
      assume "\<exists>t. s = t @ [CHR 0x0A] \<and> spec_grammar t"
      then obtain t l ls where "s = t @ [CHR 0x0A]" "t = l @ dotted ls" "spec_label l"
        "list_all spec_label ls"
        unfolding spec_grammar_iff by auto
      then have "s = l @ dotted ls @ [CHR 0x0A]" by simp
      with \<open>spec_label l\<close> \<open>list_all spec_label ls\<close> show ?thesis
        unfolding re_match_domain_pattern by blast
    qed
  qed
  show ?thesis
    using spec_grammar_not_Nil [of s] m
    by (auto simp: validate_domain_def dest: spec_grammar_not_Nil)
qed

lemma spec_validate_accepted: "spec_validate domain \<Longrightarrow> validate_domain domain"
  by (cases domain) (auto simp: spec_validate_def validate_domain_iff)

lemma validate_domain_spec:
  "validate_domain (Some s) \<Longrightarrow> last s \<noteq> CHR 0x0A \<Longrightarrow> spec_validate (Some s)"
  by (auto simp: spec_validate_def validate_domain_iff dest: spec_grammar_not_Nil)

lemma dotted_chars:
  "c \<in> set (dotted ls) \<Longrightarrow> c = CHR ''.'' \<or> (\<exists>l \<in> set ls. c \<in> set l)"
  by (induction ls) (auto simp: dotted_def)

lemma spec_label_chars: "spec_label l \<Longrightarrow> c \<in> set l \<Longrightarrow> is_alnum c \<or> c = CHR ''-''"
  by (simp add: spec_label_def list_all_iff)

lemma spec_grammar_chars:
  assumes "spec_grammar s" and "c \<in> set s"
  shows "is_alnum c \<or> c = CHR ''-'' \<or> c = CHR ''.''"
proof -
  from assms(1) obtain l ls where s: "s = l @ dotted ls" and l: "spec_label l"
    and ls: "list_all spec_label ls"
    unfolding spec_grammar_iff by blast
  from assms(2) s consider "c \<in> set l" | "c \<in> set (dotted ls)" by auto
  then show ?thesis
  proof cases
    case 1
    with l show ?thesis by (auto dest: spec_label_chars)
  next
    case 2
    then consider "c = CHR ''.''" | l' where "l' \<in> set ls" "c \<in> set l'"
      by (auto dest: dotted_chars)
    then show ?thesis
    proof cases
      case 1
      then show ?thesis by simp
    next
      case 2
      with ls have "spec_label l'" by (simp add: list_all_iff)
      with 2 show ?thesis by (auto dest: spec_label_chars)
    qed
  qed
qed

lemma newline_not_in_grammar: "spec_grammar s \<Longrightarrow> CHR 0x0A \<notin> set s"
  using spec_grammar_chars [of s "CHR 0x0A"] by (auto simp: is_alnum_def)

lemma validate_domain_differs_iff:
  "validate_domain domain \<noteq> spec_validate domain \<longleftrightarrow>
     (\<exists>t. domain = Some (t @ [CHR 0x0A]) \<and> length t \<le> 252 \<and> spec_grammar t)"
proof (cases domain)
  case None
  then show ?thesis by (simp add: validate_domain_def spec_validate_def)
next
  case (Some s)
  have "\<not> spec_grammar (t @ [CHR 0x0A])" for t
    using newline_not_in_grammar [of "t @ [CHR 0x0A]"] by auto
  then show ?thesis
    unfolding Some validate_domain_iff
    by (auto simp: spec_validate_def dest: spec_grammar_not_Nil)
qed

section \<open>The loop of the aggregation\<close>

lemma fetch_result_None_iff: "fetch_result t out = None \<longleftrightarrow> out = NXDOMAIN"
  by (simp add: fetch_result_def split: outcome.splits option.splits)

lemma fetch_result_stored: "out \<noteq> NXDOMAIN \<Longrightarrow> fetch_result t out = Some (stored t out)"
  by (cases "fetch_result t out") (simp_all add: stored_def fetch_result_None_iff)

lemma stored_empty: "out = NoAnswer \<or> out = OtherError \<Longrightarrow> stored t out = []"
  by (auto simp: stored_def fetch_result_def)

lemma records_loop_step:
  assumes "resolve w website t = (out, w1)" and "out \<noteq> NXDOMAIN"
  shows "records_loop resolve website (t # ts) (d, ex) (w, calls) =
         records_loop resolve website ts
           (dict_set d (records_key t) (stored t out), ex \<or> stored t out \<noteq> [])
           (w1, calls @ [(website, t)])"
  using assms by (simp add: fetch_record_type_def fetch_result_stored)

lemma records_loop_stop:
  assumes "resolve w website t = (NXDOMAIN, w1)"
  shows "records_loop resolve website (t # ts) (d, ex) (w, calls) =
         (None, (w1, calls @ [(website, t)]))"
  using assms by (simp add: fetch_record_type_def fetch_result_def)

text \<open>With no \<open>NXDOMAIN\<close> among the outcomes the loop runs to its end.\<close>

lemma records_loop_closed:
  "query_all resolve website ts w = (outs, w') \<Longrightarrow> NXDOMAIN \<notin> set outs \<Longrightarrow>
   records_loop resolve website ts (d, ex) (w, calls) =
     (Some (store_all d (zip ts outs),
            ex \<or> (\<exists>(t, out) \<in> set (zip ts outs). stored t out \<noteq> [])),
      (w', calls @ map (Pair website) ts))"
proof (induction ts arbitrary: d ex w calls outs w')
  case Nil
  then show ?case by (simp add: store_all_def)
next
  case (Cons t ts)
  obtain out w1 where r: "resolve w website t = (out, w1)"
    by (cases "resolve w website t")
  obtain outs1 w2 where q: "query_all resolve website ts w1 = (outs1, w2)"
    by (cases "query_all resolve website ts w1")
  from Cons.prems r q have outs: "outs = out # outs1" and w': "w' = w2" by auto
  with Cons.prems have ok: "out \<noteq> NXDOMAIN" "NXDOMAIN \<notin> set outs1" by auto
  show ?case
    unfolding records_loop_step [of resolve w website t out w1, OF r ok(1)]
      Cons.IH [OF q ok(2)] outs w'
    by (auto simp: store_all_def)
qed

text \<open>The first \<open>NXDOMAIN\<close> ends the loop, after the call that met it.\<close>

lemma records_loop_abort:
  "query_all resolve website pre w = (outs, w1) \<Longrightarrow> NXDOMAIN \<notin> set outs \<Longrightarrow>
   resolve w1 website t = (NXDOMAIN, w2) \<Longrightarrow>
   records_loop resolve website (pre @ t # post) (d, ex) (w, calls) =
     (None, (w2, calls @ map (Pair website) (pre @ [t])))"
proof (induction pre arbitrary: d ex w calls outs w1)
  case Nil
  then have "resolve w website t = (NXDOMAIN, w2)" by simp
  then show ?case
    using records_loop_stop [of resolve w website t w2 post d ex calls] by simp
next
  case (Cons p pre)
  obtain out w0 where r: "resolve w website p = (out, w0)"
    by (cases "resolve w website p")
  obtain outs1 w3 where q: "query_all resolve website pre w0 = (outs1, w3)"
    by (cases "query_all resolve website pre w0")
  from Cons.prems r q have outs: "outs = out # outs1" and w1: "w1 = w3" by auto
  with Cons.prems have ok: "out \<noteq> NXDOMAIN" "NXDOMAIN \<notin> set outs1" by auto
  from Cons.prems(3) w1 have t: "resolve w3 website t = (NXDOMAIN, w2)" by simp
  show ?case
    using records_loop_step [of resolve w website p out w0 "pre @ t # post" d ex calls, OF r ok(1)]
      Cons.IH [OF q ok(2) t]
    by simp
qed

section \<open>The dictionary the loop builds\<close>

lemma records_key_inj [simp]: "records_key a = records_key b \<longleftrightarrow> a = b"
  by (simp add: records_key_def)

lemma map_of_dict_set: "map_of (dict_set d k v) = (map_of d)(k \<mapsto> v)"
  by (induction d) (auto simp: fun_eq_iff)

lemma keys_dict_set:
  "map fst (dict_set d k v) = (if k \<in> fst ` set d then map fst d else map fst d @ [k])"
proof (induction d)
  case Nil
  then show ?case by simp
next
  case (Cons a d)
  obtain k' v' where a: "a = (k', v')" by (cases a)
  show ?case
  proof (cases "k' = k")
    case True
    then show ?thesis by (simp add: a)
  next
    case False
    with Cons.IH show ?thesis by (auto simp: a)
  qed
qed

lemma set_dict_set: "set (dict_set d k v) \<subseteq> insert (k, v) (set d)"
proof (induction d)
  case Nil
  then show ?case by simp
next
  case (Cons a d)
  obtain k' v' where a: "a = (k', v')" by (cases a)
  from Cons.IH show ?case by (cases "k' = k") (auto simp: a)
qed

lemma store_all_Cons:
  "store_all d ((t, out) # tos) = store_all (dict_set d (records_key t) (stored t out)) tos"
  by (simp add: store_all_def)

lemma store_all_snoc:
  "store_all d (tos @ [(t, out)]) = dict_set (store_all d tos) (records_key t) (stored t out)"
  by (simp add: store_all_def)

lemma length_query_all:
  "query_all resolve website ts w = (outs, w') \<Longrightarrow> length outs = length ts"
  by (induction ts arbitrary: w outs w') (auto split: prod.splits)

lemma store_all_entries:
  "(k, v) \<in> set (store_all d tos) \<Longrightarrow>
   (k, v) \<in> set d \<or> (\<exists>(t, out) \<in> set tos. k = records_key t \<and> v = stored t out)"
proof (induction tos arbitrary: d)
  case Nil
  then show ?case by (simp add: store_all_def)
next
  case (Cons a tos)
  obtain t out where a: "a = (t, out)" by (cases a)
  from Cons.prems Cons.IH [of "dict_set d (records_key t) (stored t out)"]
  have "(k, v) \<in> set (dict_set d (records_key t) (stored t out)) \<or>
        (\<exists>(t, out) \<in> set tos. k = records_key t \<and> v = stored t out)"
    by (simp add: a store_all_Cons)
  then show ?case
    using set_dict_set [of d "records_key t" "stored t out"] by (auto simp: a)
qed

lemma map_of_store_all_in:
  "t \<in> fst ` set tos \<Longrightarrow>
   \<exists>out. (t, out) \<in> set tos \<and> map_of (store_all d tos) (records_key t) = Some (stored t out)"
proof (induction tos rule: rev_induct)
  case Nil
  then show ?case by simp
next
  case (snoc a tos)
  obtain t' out' where a: "a = (t', out')" by (cases a)
  show ?case
  proof (cases "t' = t")
    case True
    then show ?thesis by (auto simp: a store_all_snoc map_of_dict_set)
  next
    case False
    with snoc.prems have "t \<in> fst ` set tos" by (auto simp: a)
    from snoc.IH [OF this] False show ?thesis
      by (auto simp: a store_all_snoc map_of_dict_set)
  qed
qed


lemma map_removeAll_records_key:
  "map records_key (removeAll t xs) = removeAll (records_key t) (map records_key xs)"
  by (induction xs) auto

lemma filter_insert_removeAll:
  "filter (\<lambda>k. k \<notin> insert x A) ys = filter (\<lambda>k. k \<notin> A) (removeAll x ys)"
  by (induction ys) auto

lemma filter_removeAll_absorb:
  "x \<in> A \<Longrightarrow> filter (\<lambda>k. k \<notin> A) (removeAll x ys) = filter (\<lambda>k. k \<notin> A) ys"
  by (induction ys) auto

lemma keys_store_all:
  "map fst (store_all d tos) =
     map fst d @ filter (\<lambda>k. k \<notin> fst ` set d) (map records_key (first_occurrences (map fst tos)))"
proof (induction tos arbitrary: d)
  case Nil
  then show ?case by (simp add: store_all_def)
next
  case (Cons a tos)
  obtain t out where a: "a = (t, out)" by (cases a)
  let ?k = "records_key t"
  let ?d1 = "dict_set d ?k (stored t out)"
  let ?ks = "map records_key (first_occurrences (map fst tos))"
  have IH: "map fst (store_all ?d1 tos) = map fst ?d1 @ filter (\<lambda>k. k \<notin> fst ` set ?d1) ?ks"
    by (rule Cons.IH)
  have set1: "fst ` set ?d1 = insert ?k (fst ` set d)"
    using keys_dict_set [of d ?k "stored t out", THEN arg_cong, of set] by auto
  have flt: "filter (\<lambda>k. k \<notin> insert ?k (fst ` set d)) ?ks
             = filter (\<lambda>k. k \<notin> fst ` set d) (removeAll ?k ?ks)"
    by (rule filter_insert_removeAll)
  show ?case
  proof (cases "?k \<in> fst ` set d")
    case True
    then have "filter (\<lambda>k. k \<notin> fst ` set d) (removeAll ?k ?ks) = filter (\<lambda>k. k \<notin> fst ` set d) ?ks"
      by (rule filter_removeAll_absorb)
    with True IH set1 show ?thesis
      by (simp add: a store_all_Cons keys_dict_set map_removeAll_records_key insert_absorb)
  next
    case False
    with IH set1 flt show ?thesis
      by (simp add: a store_all_Cons keys_dict_set map_removeAll_records_key)
  qed
qed

lemma first_occurrences_distinct: "distinct xs \<Longrightarrow> first_occurrences xs = xs"
  by (induction xs) auto

lemma set_first_occurrences: "set (first_occurrences xs) = set xs"
  by (induction xs) auto

lemma distinct_first_occurrences: "distinct (first_occurrences xs)"
  by (induction xs) (auto simp: distinct_removeAll)

lemma records_loop_None:
  "query_all resolve website ts w = (outs, w') \<Longrightarrow> NXDOMAIN \<in> set outs \<Longrightarrow>
   fst (records_loop resolve website ts (d, ex) (w, calls)) = None"
proof (induction ts arbitrary: d ex w calls outs w')
  case Nil
  then show ?case by simp
next
  case (Cons t ts)
  obtain out w1 where r: "resolve w website t = (out, w1)"
    by (cases "resolve w website t")
  obtain outs1 w2 where q: "query_all resolve website ts w1 = (outs1, w2)"
    by (cases "query_all resolve website ts w1")
  from Cons.prems r q have outs: "outs = out # outs1" by auto
  show ?case
  proof (cases "out = NXDOMAIN")
    case True
    with r show ?thesis
      using records_loop_stop [of resolve w website t w1 ts d ex calls] by simp
  next
    case False
    with Cons.prems(2) outs have "NXDOMAIN \<in> set outs1" by auto
    from Cons.IH [OF q this] show ?thesis
      unfolding records_loop_step [of resolve w website t out w1, OF r False] .
  qed
qed

section \<open>The whole lookup\<close>

lemma get_dns_records_invalid:
  "\<not> validate_domain (clean_domain website) \<Longrightarrow>
   get_dns_records_locals cfg resolve website types_arg st = (None, st)"
  by (cases "clean_domain website")
     (simp_all add: get_dns_records_locals_def)

lemma get_dns_records_valid:
  "clean_domain website = Some d \<Longrightarrow> validate_domain (Some d) \<Longrightarrow>
   get_dns_records_locals cfg resolve website types_arg st =
     records_loop resolve d (requested_types cfg types_arg) ([], False) st"
  by (simp add: get_dns_records_locals_def)

lemma get_dns_records_locals_Some:
  assumes "get_dns_records_locals cfg resolve website types_arg st = (Some r, st')"
  obtains d where "clean_domain website = Some d" and "validate_domain (Some d)"
    and "records_loop resolve d (requested_types cfg types_arg) ([], False) st = (Some r, st')"
  using assms
  by (cases "clean_domain website")
     (auto simp: get_dns_records_locals_def split: if_splits)

lemma records_loop_Some:
  assumes "records_loop resolve website ts (d, ex) (w, calls) = (Some r, st')"
  obtains outs w' where "query_all resolve website ts w = (outs, w')"
    and "NXDOMAIN \<notin> set outs" and "length outs = length ts"
    and "r = (store_all d (zip ts outs),
              ex \<or> (\<exists>(t, out) \<in> set (zip ts outs). stored t out \<noteq> []))"
    and "st' = (w', calls @ map (Pair website) ts)"
proof -
  obtain outs w' where q: "query_all resolve website ts w = (outs, w')"
    by (cases "query_all resolve website ts w")
  have no: "NXDOMAIN \<notin> set outs"
  proof
    assume "NXDOMAIN \<in> set outs"
    from records_loop_None [OF q this, of d ex calls] assms show False by simp
  qed
  from records_loop_closed [OF q no, of d ex calls] assms length_query_all [OF q] q no
  show ?thesis by (intro that [of outs w']) auto
qed

section \<open>Claims\<close>

text \<open>
  C3: \<open>clean_domain\<close> removes \<open>www.\<close> before it cuts at the first \<open>/\<close>; on the
  two literal inputs, \<open>http://www.google.com\<close> becomes \<open>google.com\<close> and
  \<open>https://github.com/user/repo\<close> becomes \<open>github.com\<close>.
\<close>

theorem clean_domain_literals:
  "clean_domain (Some ''http://www.google.com'') = Some ''google.com'' \<and>
   clean_domain (Some ''https://github.com/user/repo'') = Some ''github.com''"
  by code_simp

text \<open>
  C10: \<open>validate_domain\<close> accepts an input with a character outside the label grammar:
  \<open>$\<close> also holds just before a newline that ends the string, so \<open>google.com\<close>
  followed by a newline is accepted, although a newline is in neither character class
  of the pattern and is not the dot.
\<close>

theorem validate_domain_accepts_trailing_newline:
  "validate_domain (Some ''google.com\<newline>'') \<and>
   last ''google.com\<newline>'' = CHR 0x0A \<and>
   \<not> in_class alnum_hyphen_ranges (CHR 0x0A) \<and> CHR 0x0A \<noteq> CHR ''.''"
  by code_simp

text \<open>
  C4: when the cleaned domain fails validation, \<open>get_dns_records\<close> returns \<open>None\<close>
  and leaves the state as it found it: the resolver's state is untouched and no
  \<open>resolve\<close> call is added to the list of calls, whatever record types are requested.
\<close>

theorem invalid_domain_no_resolver_call:
  "\<not> validate_domain (clean_domain website) \<Longrightarrow>
   get_dns_records cfg resolve website types_arg st = (None, st)"
  by (simp add: get_dns_records_def get_dns_records_invalid)

theorem invalid_domain_no_resolver_call_witness:
  "\<not> validate_domain (clean_domain (Some ''http://-bad-.com/x'')) \<and>
   get_dns_records \<lparr>record_types = [''A'', ''MX'']\<rparr>
     (answers_by_type (\<lambda>t. NoAnswer)) (Some ''http://-bad-.com/x'') None (0, []) = (None, (0, []))"
proof -
  have h: "\<not> validate_domain (clean_domain (Some ''http://-bad-.com/x''))"
    by code_simp
  show ?thesis
    using h invalid_domain_no_resolver_call [OF h] by simp
qed

text \<open>
  C1: on a valid cleaned domain, let the requested record types be \<open>pre\<close>, then
  \<open>t\<close>, then \<open>post\<close>, where the resolver reports no \<open>NXDOMAIN\<close> for the types
  of \<open>pre\<close> and reports \<open>NXDOMAIN\<close> for \<open>t\<close>. Then \<open>get_dns_records\<close> returns
  \<open>None\<close>, not a partial dictionary, and the calls it issued are those for \<open>pre\<close> and
  for \<open>t\<close>: none for a type of \<open>post\<close>.
\<close>

theorem nxdomain_aborts_lookup:
  assumes "clean_domain website = Some d" and "validate_domain (Some d)"
    and "requested_types cfg types_arg = pre @ t # post"
    and "query_all resolve d pre w = (outs, w1)" and "NXDOMAIN \<notin> set outs"
    and "resolve w1 d t = (NXDOMAIN, w2)"
  shows "get_dns_records cfg resolve website types_arg (w, calls) =
           (None, (w2, calls @ map (Pair d) (pre @ [t])))"
  using assms
  by (simp add: get_dns_records_def get_dns_records_valid records_loop_abort)

theorem nxdomain_aborts_lookup_witness:
  "clean_domain (Some ''www.a.b'') = Some ''a.b'' \<and> validate_domain (Some ''a.b'') \<and>
   requested_types \<lparr>record_types = [''A'', ''MX'', ''NS'']\<rparr> None = [''A''] @ ''MX'' # [''NS''] \<and>
   query_all (answers_by_type (\<lambda>t. if t = ''MX'' then NXDOMAIN else NoAnswer)) ''a.b'' [''A''] 0
     = ([NoAnswer], 1) \<and>
   NXDOMAIN \<notin> set [NoAnswer] \<and>
   answers_by_type (\<lambda>t. if t = ''MX'' then NXDOMAIN else NoAnswer) 1 ''a.b'' ''MX'' = (NXDOMAIN, 2) \<and>
   get_dns_records \<lparr>record_types = [''A'', ''MX'', ''NS'']\<rparr>
     (answers_by_type (\<lambda>t. if t = ''MX'' then NXDOMAIN else NoAnswer)) (Some ''www.a.b'') None (0, [])
     = (None, (2, [(''a.b'', ''A''), (''a.b'', ''MX'')]))"
proof -
  let ?r = "answers_by_type (\<lambda>t. if t = ''MX'' then NXDOMAIN else NoAnswer)"
  have h1: "clean_domain (Some ''www.a.b'') = Some ''a.b''" by code_simp
  have h2: "validate_domain (Some ''a.b'')" by code_simp
  have h3: "requested_types \<lparr>record_types = [''A'', ''MX'', ''NS'']\<rparr> None = [''A''] @ ''MX'' # [''NS'']"
    by (simp add: requested_types_def)
  have h4: "query_all ?r ''a.b'' [''A''] 0 = ([NoAnswer], 1)"
    by (simp add: answers_by_type_def)
  have h5: "NXDOMAIN \<notin> set [NoAnswer]" by simp
  have h6: "?r 1 ''a.b'' ''MX'' = (NXDOMAIN, 2)"
    by (simp add: answers_by_type_def)
  show ?thesis
    using h1 h2 h3 h4 h5 h6 nxdomain_aborts_lookup [OF h1 h2 h3 h4 h5 h6, of "[]"]
    by simp
qed




text \<open>
  C6: on a valid cleaned domain where every requested record type ends in
  \<open>NoAnswer\<close>, the lookup returns a dictionary, which is not the failure value
  \<open>None\<close>; the dictionary has the key of every requested type, each with the empty
  list, and \<open>domain_exists\<close> stays false (the case of the notice that the domain
  exists but has no standard records). And whenever the dictionary of a finished lookup
  holds a non-empty list, \<open>domain_exists\<close> is true.
\<close>

theorem found_empty_and_found:
  "(clean_domain website = Some d \<and> validate_domain (Some d) \<and>
    requested_types cfg types_arg = ts \<and>
    query_all resolve d ts w = (outs, w') \<and> set outs \<subseteq> {NoAnswer} \<longrightarrow>
    (\<exists>dns_record.
       get_dns_records_locals cfg resolve website types_arg (w, calls) =
         (Some (dns_record, False), (w', calls @ map (Pair d) ts)) \<and>
       get_dns_records cfg resolve website types_arg (w, calls) =
         (Some dns_record, (w', calls @ map (Pair d) ts)) \<and>
       Some dns_record \<noteq> None \<and>
       map fst dns_record = map records_key (first_occurrences ts) \<and>
       (\<forall>t \<in> set ts. map_of dns_record (records_key t) = Some []))) \<and>
   (get_dns_records_locals cfg2 resolve2 website2 types_arg2 st2 = (Some (dns_record2, ex2), st2') \<and>
    (\<exists>(k, v) \<in> set dns_record2. v \<noteq> []) \<longrightarrow> ex2)"
proof (intro conjI impI)
  assume a: "clean_domain website = Some d \<and> validate_domain (Some d) \<and>
    requested_types cfg types_arg = ts \<and>
    query_all resolve d ts w = (outs, w') \<and> set outs \<subseteq> {NoAnswer}"
  let ?tos = "zip ts outs"
  from a have q: "query_all resolve d ts w = (outs, w')" by simp
  from a have no: "NXDOMAIN \<notin> set outs" by auto
  have len: "length outs = length ts" by (rule length_query_all [OF q])
  have emp: "stored t out = []" if "(t, out) \<in> set ?tos" for t out
  proof -
    from that have "out \<in> set outs" by (rule set_zip_rightD)
    with a have "out = NoAnswer" by auto
    then show ?thesis by (simp add: stored_empty)
  qed
  then have flag: "\<not> (\<exists>(t, out) \<in> set ?tos. stored t out \<noteq> [])" by auto
  have loc: "get_dns_records_locals cfg resolve website types_arg (w, calls) =
               (Some (store_all [] ?tos, False), (w', calls @ map (Pair d) ts))"
    using a flag by (simp add: get_dns_records_valid records_loop_closed [OF q no])
  have keys: "map fst (store_all [] ?tos) = map records_key (first_occurrences ts)"
    using len by (simp add: keys_store_all)
  have vals: "map_of (store_all [] ?tos) (records_key t) = Some []" if "t \<in> set ts" for t
  proof -
    from that len have "t \<in> fst ` set ?tos"
      by (metis map_fst_zip set_map)
    from map_of_store_all_in [OF this, of "[]"] emp show ?thesis by auto
  qed
  from loc keys vals
  show "\<exists>dns_record.
       get_dns_records_locals cfg resolve website types_arg (w, calls) =
         (Some (dns_record, False), (w', calls @ map (Pair d) ts)) \<and>
       get_dns_records cfg resolve website types_arg (w, calls) =
         (Some dns_record, (w', calls @ map (Pair d) ts)) \<and>
       Some dns_record \<noteq> None \<and>
       map fst dns_record = map records_key (first_occurrences ts) \<and>
       (\<forall>t \<in> set ts. map_of dns_record (records_key t) = Some [])"
    by (simp add: get_dns_records_def)
next
  assume b: "get_dns_records_locals cfg2 resolve2 website2 types_arg2 st2 = (Some (dns_record2, ex2), st2') \<and>
    (\<exists>(k, v) \<in> set dns_record2. v \<noteq> [])"
  then obtain k v where kv: "(k, v) \<in> set dns_record2" "v \<noteq> []" by auto
  from b obtain d2 where
    l: "records_loop resolve2 d2 (requested_types cfg2 types_arg2) ([], False) st2
          = (Some (dns_record2, ex2), st2')"
    by (auto elim: get_dns_records_locals_Some)
  obtain w2 calls2 where st2: "st2 = (w2, calls2)" by (cases st2)
  from l [unfolded st2] obtain outs2 where
    r: "(dns_record2, ex2) =
          (store_all [] (zip (requested_types cfg2 types_arg2) outs2),
           False \<or> (\<exists>(t, out) \<in> set (zip (requested_types cfg2 types_arg2) outs2). stored t out \<noteq> []))"
    by (rule records_loop_Some)
  with kv store_all_entries [of k v "[]" "zip (requested_types cfg2 types_arg2) outs2"]
  show ex2 by auto
qed

theorem found_empty_and_found_witness:
  "(clean_domain (Some ''a.b'') = Some ''a.b'' \<and> validate_domain (Some ''a.b'') \<and>
    requested_types \<lparr>record_types = [''A'', ''MX'']\<rparr> None = [''A'', ''MX''] \<and>
    query_all (answers_by_type (\<lambda>t. NoAnswer)) ''a.b'' [''A'', ''MX''] 0 = ([NoAnswer, NoAnswer], 2) \<and>
    set [NoAnswer, NoAnswer] \<subseteq> {NoAnswer} \<and>
    (\<exists>dns_record.
       get_dns_records_locals \<lparr>record_types = [''A'', ''MX'']\<rparr> (answers_by_type (\<lambda>t. NoAnswer))
         (Some ''a.b'') None (0, [])
         = (Some (dns_record, False), (2, [(''a.b'', ''A''), (''a.b'', ''MX'')])) \<and>
       map fst dns_record = [''A_Records'', ''MX_Records''] \<and>
       map_of dns_record ''A_Records'' = Some [] \<and>
       map_of dns_record ''MX_Records'' = Some [])) \<and>
   (get_dns_records_locals \<lparr>record_types = [''A'']\<rparr>
      (answers_by_type (\<lambda>t. Answer [\<lparr>to_text = ''192.0.2.1'', mx_attrs = None, soa_attrs = None\<rparr>]))
      (Some ''a.b'') None (0, [])
      = (Some ([(''A_Records'', [Simple ''192.0.2.1''])], True), (1, [(''a.b'', ''A'')])) \<and>
    (\<exists>(k, v) \<in> set [(''A_Records'', [Simple ''192.0.2.1''])]. v \<noteq> []))"
proof -
  let ?cfg = "\<lparr>record_types = [''A'', ''MX'']\<rparr>"
  let ?r = "answers_by_type (\<lambda>t. NoAnswer)"
  let ?cfg2 = "\<lparr>record_types = [''A'']\<rparr>"
  let ?r2 = "answers_by_type (\<lambda>t. Answer [\<lparr>to_text = ''192.0.2.1'', mx_attrs = None, soa_attrs = None\<rparr>])"
  let ?d2 = "[(''A_Records'', [Simple ''192.0.2.1''])]"
  have h1: "clean_domain (Some ''a.b'') = Some ''a.b''" by code_simp
  have h2: "validate_domain (Some ''a.b'')" by code_simp
  have h3: "requested_types ?cfg None = [''A'', ''MX'']"
    by (simp add: requested_types_def)
  have h4: "query_all ?r ''a.b'' [''A'', ''MX''] 0 = ([NoAnswer, NoAnswer], 2)"
    by (simp add: answers_by_type_def)
  have h5: "set [NoAnswer, NoAnswer] \<subseteq> {NoAnswer}" by simp
  have g1: "get_dns_records_locals ?cfg2 ?r2 (Some ''a.b'') None (0, [])
              = (Some (?d2, True), (1, [(''a.b'', ''A'')]))"
    by code_simp
  have g2: "\<exists>(k, v) \<in> set ?d2. v \<noteq> []" by simp
  note T = found_empty_and_found [where website = "Some ''a.b''" and d = "''a.b''"
      and cfg = ?cfg and types_arg = None and ts = "[''A'', ''MX'']" and resolve = ?r
      and w = 0 and outs = "[NoAnswer, NoAnswer]" and w' = 2 and calls = "[]"
      and ?cfg2.0 = ?cfg2 and ?resolve2.0 = ?r2 and ?website2.0 = "Some ''a.b''"
      and ?types_arg2.0 = None and ?st2.0 = "(0, [])" and ?dns_record2.0 = ?d2
      and ?ex2.0 = True and st2' = "(1, [(''a.b'', ''A'')])"]
  from T h1 h2 h3 h4 h5 have
    "\<exists>dns_record.
       get_dns_records_locals ?cfg ?r (Some ''a.b'') None (0, [])
         = (Some (dns_record, False), (2, [(''a.b'', ''A''), (''a.b'', ''MX'')])) \<and>
       map fst dns_record = [''A_Records'', ''MX_Records''] \<and>
       map_of dns_record ''A_Records'' = Some [] \<and>
       map_of dns_record ''MX_Records'' = Some []"
    by (auto simp: records_key_def)
  with h1 h2 h3 h4 h5 g1 g2 show ?thesis by blast
qed

text \<open>
  C8, as stated, fails for a request that repeats a record type: for the request
  \<open>A\<close>, \<open>MX\<close>, \<open>A\<close> the lookup calls the resolver three times and returns the
  two keys \<open>A_Records\<close>, \<open>MX_Records\<close>, since the second assignment to
  \<open>A_Records\<close> replaces the value where the key stands; the keys are not the three
  keys of the request in its order.
\<close>

theorem result_keys_repeated_type_counterexample:
  "get_dns_records \<lparr>record_types = []\<rparr> (same_answer NoAnswer) (Some ''a.b'')
     (Some [''A'', ''MX'', ''A'']) (0, [])
     = (Some [(''A_Records'', []), (''MX_Records'', [])],
        (3, [(''a.b'', ''A''), (''a.b'', ''MX''), (''a.b'', ''A'')])) \<and>
   map fst [(''A_Records'', [] :: decoded list), (''MX_Records'', [])]
     \<noteq> [''A_Records'', ''MX_Records'', ''A_Records'']"
  by code_simp

text \<open>
  C8, amended: the dictionary of a successful lookup has exactly one key per distinct
  requested record type, the type followed by \<open>_Records\<close>, where the requested sequence
  is the \<open>record_types\<close> argument or, when that argument is absent or empty, the
  configured sequence; the keys stand in the order in which the types are first
  requested, which is the order of the request whenever no type is repeated.
\<close>

theorem result_keys_in_order_of_first_request:
  assumes "get_dns_records cfg resolve website types_arg st = (Some dns_record, st')"
  shows "(types_arg = None \<or> types_arg = Some [] \<longrightarrow>
            map fst dns_record
              = map (\<lambda>t. t @ ''_Records'') (first_occurrences (record_types cfg)) \<and>
            set (map fst dns_record) = (\<lambda>t. t @ ''_Records'') ` set (record_types cfg) \<and>
            (distinct (record_types cfg) \<longrightarrow>
               map fst dns_record = map (\<lambda>t. t @ ''_Records'') (record_types cfg))) \<and>
         (\<forall>req. types_arg = Some req \<and> req \<noteq> [] \<longrightarrow>
            map fst dns_record = map (\<lambda>t. t @ ''_Records'') (first_occurrences req) \<and>
            set (map fst dns_record) = (\<lambda>t. t @ ''_Records'') ` set req \<and>
            (distinct req \<longrightarrow> map fst dns_record = map (\<lambda>t. t @ ''_Records'') req)) \<and>
         distinct (map fst dns_record)"
proof -
  let ?ts = "requested_types cfg types_arg"
  let ?key = "\<lambda>t. t @ ''_Records''"
  from assms obtain ex where
    "get_dns_records_locals cfg resolve website types_arg st = (Some (dns_record, ex), st')"
    by (auto simp: get_dns_records_def split: prod.splits)
  then obtain d where
    l: "records_loop resolve d ?ts ([], False) st = (Some (dns_record, ex), st')"
    by (auto elim: get_dns_records_locals_Some)
  obtain w calls where st: "st = (w, calls)" by (cases st)
  from l [unfolded st] obtain outs where len: "length outs = length ?ts"
    and r: "(dns_record, ex) =
          (store_all [] (zip ?ts outs), False \<or> (\<exists>(t, out) \<in> set (zip ?ts outs). stored t out \<noteq> []))"
    by (rule records_loop_Some)
  have key: "records_key = ?key" by (simp add: fun_eq_iff records_key_def)
  from r len have keys: "map fst dns_record = map ?key (first_occurrences ?ts)"
    by (simp add: keys_store_all key)
  have inj: "inj_on ?key A" for A by (simp add: inj_on_def)
  have dflt: "?ts = record_types cfg" if "types_arg = None \<or> types_arg = Some []"
    using that by (auto simp: requested_types_def)
  have req: "?ts = req" if "types_arg = Some req \<and> req \<noteq> []" for req
    using that by (simp add: requested_types_def)
  have set_keys: "set (map fst dns_record) = ?key ` set ?ts"
    unfolding keys by (simp add: set_first_occurrences)
  have same: "map fst dns_record = map ?key ?ts" if "distinct ?ts"
    unfolding keys using that by (simp add: first_occurrences_distinct)
  have dis: "distinct (map fst dns_record)"
    unfolding keys by (simp add: distinct_map distinct_first_occurrences inj)
  show ?thesis
  proof (intro conjI impI allI)
    assume a: "types_arg = None \<or> types_arg = Some []"
    show "map fst dns_record = map ?key (first_occurrences (record_types cfg))"
      using keys dflt [OF a] by simp
    show "set (map fst dns_record) = ?key ` set (record_types cfg)"
      using set_keys dflt [OF a] by simp
    show "map fst dns_record = map ?key (record_types cfg)" if "distinct (record_types cfg)"
      using same that dflt [OF a] by simp
  next
    fix req assume a: "types_arg = Some req \<and> req \<noteq> []"
    show "map fst dns_record = map ?key (first_occurrences req)"
      using keys req [OF a] by simp
    show "set (map fst dns_record) = ?key ` set req"
      using set_keys req [OF a] by simp
    show "map fst dns_record = map ?key req" if "distinct req"
      using same that req [OF a] by simp
  next
    show "distinct (map fst dns_record)" by (rule dis)
  qed
qed

theorem result_keys_in_order_of_first_request_witness:
  "get_dns_records \<lparr>record_types = [''A'', ''MX'']\<rparr> (same_answer NoAnswer)
     (Some ''a.b'') None (0, [])
     = (Some [(''A_Records'', []), (''MX_Records'', [])], (2, [(''a.b'', ''A''), (''a.b'', ''MX'')])) \<and>
   get_dns_records \<lparr>record_types = [''A'', ''MX'']\<rparr> (same_answer NoAnswer)
     (Some ''a.b'') (Some []) (0, [])
     = (Some [(''A_Records'', []), (''MX_Records'', [])], (2, [(''a.b'', ''A''), (''a.b'', ''MX'')])) \<and>
   distinct [''A'', ''MX''] \<and>
   map fst [(''A_Records'', [] :: decoded list), (''MX_Records'', [])]
     = map (\<lambda>t. t @ ''_Records'') [''A'', ''MX''] \<and>
   get_dns_records \<lparr>record_types = [''A'', ''MX'']\<rparr> (same_answer NoAnswer)
     (Some ''a.b'') (Some [''NS'', ''A'']) (0, [])
     = (Some [(''NS_Records'', []), (''A_Records'', [])], (2, [(''a.b'', ''NS''), (''a.b'', ''A'')])) \<and>
   [''NS'', ''A''] \<noteq> [] \<and> distinct [''NS'', ''A''] \<and>
   map fst [(''NS_Records'', [] :: decoded list), (''A_Records'', [])]
     = map (\<lambda>t. t @ ''_Records'') [''NS'', ''A''] \<and>
   get_dns_records \<lparr>record_types = []\<rparr> (same_answer NoAnswer)
     (Some ''a.b'') (Some [''A'', ''MX'', ''A'']) (0, [])
     = (Some [(''A_Records'', []), (''MX_Records'', [])],
        (3, [(''a.b'', ''A''), (''a.b'', ''MX''), (''a.b'', ''A'')])) \<and>
   map fst [(''A_Records'', [] :: decoded list), (''MX_Records'', [])]
     = map (\<lambda>t. t @ ''_Records'') (first_occurrences [''A'', ''MX'', ''A''])"
proof -
  let ?cfg = "\<lparr>record_types = [''A'', ''MX'']\<rparr>"
  let ?r = "same_answer NoAnswer"
  let ?d = "[(''A_Records'', [] :: decoded list), (''MX_Records'', [])]"
  let ?d2 = "[(''NS_Records'', [] :: decoded list), (''A_Records'', [])]"
  have h1: "get_dns_records ?cfg ?r (Some ''a.b'') None (0, [])
              = (Some ?d, (2, [(''a.b'', ''A''), (''a.b'', ''MX'')]))"
    by code_simp
  have h2: "get_dns_records ?cfg ?r (Some ''a.b'') (Some []) (0, [])
              = (Some ?d, (2, [(''a.b'', ''A''), (''a.b'', ''MX'')]))"
    by code_simp
  have h3: "get_dns_records ?cfg ?r (Some ''a.b'') (Some [''NS'', ''A'']) (0, [])
              = (Some ?d2, (2, [(''a.b'', ''NS''), (''a.b'', ''A'')]))"
    by code_simp
  have h4: "get_dns_records \<lparr>record_types = []\<rparr> ?r (Some ''a.b'') (Some [''A'', ''MX'', ''A'']) (0, [])
              = (Some ?d, (3, [(''a.b'', ''A''), (''a.b'', ''MX''), (''a.b'', ''A'')]))"
    by code_simp
  have d1: "distinct [''A'', ''MX'']" and d2: "distinct [''NS'', ''A'']" by simp_all
  from result_keys_in_order_of_first_request [OF h1] d1
  have k1: "map fst ?d = map (\<lambda>t. t @ ''_Records'') [''A'', ''MX'']" by simp
  from result_keys_in_order_of_first_request [OF h2] d1
  have k2: "map fst ?d = map (\<lambda>t. t @ ''_Records'') [''A'', ''MX'']" by simp
  from result_keys_in_order_of_first_request [OF h3] d2
  have k3: "map fst ?d2 = map (\<lambda>t. t @ ''_Records'') [''NS'', ''A'']" by simp
  from result_keys_in_order_of_first_request [OF h4]
  have k4: "map fst ?d = map (\<lambda>t. t @ ''_Records'') (first_occurrences [''A'', ''MX'', ''A''])"
    by simp
  from h1 h2 h3 h4 d1 d2 k1 k3 k4 show ?thesis by simp
qed

text \<open>
  C9: \<open>get_dns_records\<close> returns \<open>None\<close> for a domain that fails validation, and
  returns \<open>None\<close> as well when the resolver reports \<open>NXDOMAIN\<close> for a valid one:
  the two returned values are equal.
\<close>

theorem failure_values_coincide:
  assumes "\<not> validate_domain (clean_domain website1)"
    and "clean_domain website2 = Some d" and "validate_domain (Some d)"
    and "requested_types cfg types_arg = pre @ t # post"
    and "query_all resolve d pre w = (outs, w1)" and "NXDOMAIN \<notin> set outs"
    and "resolve w1 d t = (NXDOMAIN, w2)"
  shows "fst (get_dns_records cfg resolve website1 types_arg (w, calls)) = None \<and>
         fst (get_dns_records cfg resolve website2 types_arg (w, calls)) = None \<and>
         fst (get_dns_records cfg resolve website1 types_arg (w, calls)) =
         fst (get_dns_records cfg resolve website2 types_arg (w, calls))"
  using assms
  by (simp add: get_dns_records_def get_dns_records_invalid get_dns_records_valid
      records_loop_abort)

theorem failure_values_coincide_witness:
  "\<not> validate_domain (clean_domain (Some ''-bad'')) \<and>
   clean_domain (Some ''a.b'') = Some ''a.b'' \<and> validate_domain (Some ''a.b'') \<and>
   requested_types \<lparr>record_types = [''A'', ''MX'']\<rparr> None = [] @ ''A'' # [''MX''] \<and>
   query_all (answers_by_type (\<lambda>t. NXDOMAIN)) ''a.b'' [] 0 = ([], 0) \<and>
   NXDOMAIN \<notin> set [] \<and>
   answers_by_type (\<lambda>t. NXDOMAIN) 0 ''a.b'' ''A'' = (NXDOMAIN, 1) \<and>
   fst (get_dns_records \<lparr>record_types = [''A'', ''MX'']\<rparr> (answers_by_type (\<lambda>t. NXDOMAIN))
          (Some ''-bad'') None (0, [])) = None \<and>
   fst (get_dns_records \<lparr>record_types = [''A'', ''MX'']\<rparr> (answers_by_type (\<lambda>t. NXDOMAIN))
          (Some ''a.b'') None (0, [])) = None"
proof -
  let ?cfg = "\<lparr>record_types = [''A'', ''MX'']\<rparr>"
  let ?r = "answers_by_type (\<lambda>t. NXDOMAIN)"
  have h0: "\<not> validate_domain (clean_domain (Some ''-bad''))" by code_simp
  have h1: "clean_domain (Some ''a.b'') = Some ''a.b''" by code_simp
  have h2: "validate_domain (Some ''a.b'')" by code_simp
  have h3: "requested_types ?cfg None = [] @ ''A'' # [''MX'']"
    by (simp add: requested_types_def)
  have h4: "query_all ?r ''a.b'' [] 0 = ([], 0)" by simp
  have h5: "NXDOMAIN \<notin> set []" by simp
  have h6: "?r 0 ''a.b'' ''A'' = (NXDOMAIN, 1)" by (simp add: answers_by_type_def)
  from failure_values_coincide [OF h0 h1 h2 h3 h4 h5 h6, of "[]"] h0 h1 h2 h3 h4 h5 h6
  show ?thesis by blast
qed

text \<open>
  C2: \<open>validate_domain\<close> is meant to accept exactly the non-empty strings of at most
  253 characters that follow the label grammar, and to reject the empty string and the
  absent value. It does so except on one kind of input (\<open>validate_domain_differs_iff\<close>):
  a string of the grammar followed by one newline is accepted although it is not in the
  grammar. Here that input is \<open>a.b\<close> with a newline; it also reaches the validator
  through \<open>clean_domain\<close>, which keeps the newline of \<open>a.b\<close>, newline, \<open>/x\<close>.
\<close>

theorem validate_domain_departs_from_grammar:
  "validate_domain (Some ''a.b\<newline>'') \<and> \<not> spec_validate (Some ''a.b\<newline>'') \<and>
   clean_domain (Some ''a.b\<newline>/x'') = Some ''a.b\<newline>''"
  by code_simp

text \<open>
  C7, as stated, fails: \<open>clean_domain\<close> removes both occurrences of \<open>www.\<close> from
  \<open>www.www.a.com\<close>, where removing the first one only would leave \<open>www.a.com\<close>; and
  \<open>wwwww.w.\<close>, which holds \<open>www.\<close> once, is cleaned to \<open>www.\<close>, since the
  removal joins the text before and after the occurrence.
\<close>

theorem clean_domain_first_www_counterexample:
  "count_occ ''www.'' ''www.www.a.com'' = 2 \<and>
   clean_domain (Some ''www.www.a.com'') = Some ''a.com'' \<and>
   remove_first ''www.'' ''www.www.a.com'' = ''www.a.com'' \<and>
   count_occ ''www.'' ''wwwww.w.'' = 1 \<and>
   clean_domain (Some ''wwwww.w.'') = Some ''www.'' \<and>
   count_occ ''www.'' ''www.'' = 1"
  by code_simp

text \<open>
  C7, amended: \<open>clean_domain\<close> removes every occurrence of \<open>www.\<close> that a scan
  from the left finds in the stripped, scheme-free string, wherever it stands: the result
  is that string with the occurrences removed, cut at the first \<open>/\<close>; a string without
  an occurrence is left as it is, and after the text \<open>x\<close> before the first occurrence the
  removal goes on behind that occurrence. When the stripped, scheme-free string holds
  \<open>www.\<close> at most once and holds no \<open>wwww.\<close> (no further \<open>w\<close> stands directly
  before the occurrence), the cleaned domain holds no \<open>www.\<close>.
\<close>

theorem clean_domain_removes_every_www:
  "clean_domain (Some d) =
     Some (takeWhile (\<lambda>c. c \<noteq> CHR ''/'') (py_replace ''www.'' [] (scheme_stripped d))) \<and>
   (count_occ ''www.'' t = 0 \<longrightarrow> py_replace ''www.'' [] t = t) \<and>
   (count_occ ''www.'' (x @ ''www'') = 0 \<longrightarrow>
      py_replace ''www.'' [] (x @ ''www.'' @ y) = x @ py_replace ''www.'' [] y) \<and>
   (count_occ ''www.'' (scheme_stripped d) \<le> 1 \<and> count_occ ''wwww.'' (scheme_stripped d) = 0 \<longrightarrow>
      (\<exists>r. clean_domain (Some d) = Some r \<and> count_occ ''www.'' r = 0))"
proof (intro conjI impI)
  show "clean_domain (Some d) =
     Some (takeWhile (\<lambda>c. c \<noteq> CHR ''/'') (py_replace ''www.'' [] (scheme_stripped d)))"
    by (rule clean_domain_eq)
next
  assume "count_occ ''www.'' t = 0"
  then show "py_replace ''www.'' [] t = t" by (simp add: py_replace_none)
next
  assume "count_occ ''www.'' (x @ ''www'') = 0"
  then show "py_replace ''www.'' [] (x @ ''www.'' @ y) = x @ py_replace ''www.'' [] y"
    using py_replace_first [of "''www.''" x "[]" y] by simp
next
  assume a: "count_occ ''www.'' (scheme_stripped d) \<le> 1 \<and> count_occ ''wwww.'' (scheme_stripped d) = 0"
  let ?r = "py_replace ''www.'' [] (scheme_stripped d)"
  let ?out = "takeWhile (\<lambda>c. c \<noteq> CHR ''/'') ?r"
  from a have "\<not> sublist ''www.'' ?r" by (simp add: www_free_after_replace)
  moreover have "sublist ?out ?r" by (simp add: takeWhile_is_prefix)
  ultimately have "\<not> sublist ''www.'' ?out" by (auto dest: sublist_trans')
  then have "count_occ ''www.'' ?out = 0" by (simp add: count_occ_0_iff)
  then show "\<exists>r. clean_domain (Some d) = Some r \<and> count_occ ''www.'' r = 0"
    by (simp add: clean_domain_eq)
qed

theorem clean_domain_removes_every_www_witness:
  "count_occ ''www.'' ''a.com'' = 0 \<and> py_replace ''www.'' [] ''a.com'' = ''a.com'' \<and>
   count_occ ''www.'' (''ftp.'' @ ''www'') = 0 \<and>
   py_replace ''www.'' [] (''ftp.'' @ ''www.'' @ ''a.www.b'') = ''ftp.'' @ py_replace ''www.'' [] ''a.www.b'' \<and>
   count_occ ''www.'' (scheme_stripped ''https://www.a.com/x'') \<le> 1 \<and>
   count_occ ''wwww.'' (scheme_stripped ''https://www.a.com/x'') = 0 \<and>
   (\<exists>r. clean_domain (Some ''https://www.a.com/x'') = Some r \<and> count_occ ''www.'' r = 0)"
proof -
  have h1: "count_occ ''www.'' ''a.com'' = 0" by code_simp
  have h2: "count_occ ''www.'' (''ftp.'' @ ''www'') = 0" by code_simp
  have h3: "count_occ ''www.'' (scheme_stripped ''https://www.a.com/x'') \<le> 1" by code_simp
  have h4: "count_occ ''wwww.'' (scheme_stripped ''https://www.a.com/x'') = 0" by code_simp
  note T = clean_domain_removes_every_www [where d = "''https://www.a.com/x''"
      and t = "''a.com''" and x = "''ftp.''" and y = "''a.www.b''"]
  from T h1 h2 h3 h4 show ?thesis by blast
qed

end
